theory Spec2Isabelle
  imports Main "HOL-Library.AList"
begin

section \<open>Python string operations used by the converter\<close>

text \<open>
  A Python \<^verbatim>\<open>str\<close> is modelled as a \<^typ>\<open>string\<close>: one \<^typ>\<open>char\<close> per character of
  the Python string, the character with code point \<open>of_char c\<close> (so the model covers the
  strings whose code points are below 256).
\<close>

definition quote :: char where
  "quote = CHR 0x22"

definition comma :: char where
  "comma = CHR 0x2C"

definition newline :: char where
  "newline = CHR 0x0A"

definition backslash :: char where
  "backslash = CHR 0x5C"

text \<open>
  \<^verbatim>\<open>str.strip()\<close> without argument removes the characters for which \<^verbatim>\<open>str.isspace\<close>
  holds: tab, line feed, vertical tab, form feed, carriage return, the separators
  0x1C to 0x1F, space, and (beyond ASCII, below 256) 0x85 and 0xA0.
\<close>

definition isspace :: "char \<Rightarrow> bool" where
  "isspace c = (of_char c \<in> set [9, 10, 11, 12, 13, 28, 29, 30, 31, 32, 133, 160 :: nat])"

definition lstrip :: "string \<Rightarrow> string" where
  "lstrip s = dropWhile isspace s"

definition rstrip :: "string \<Rightarrow> string" where
  "rstrip s = rev (dropWhile isspace (rev s))"

definition strip :: "string \<Rightarrow> string" where
  "strip s = rstrip (lstrip s)"

definition startswith :: "string \<Rightarrow> string \<Rightarrow> bool" where
  "startswith s p = (take (length p) s = p)"

definition endswith :: "string \<Rightarrow> string \<Rightarrow> bool" where
  "endswith s p = (drop (length s - length p) s = p)"

text \<open>
  Slicing \<^verbatim>\<open>s[i:j]\<close>: a negative index counts from the end, and both indices are
  clamped to the string, so a slice never raises.
\<close>

definition slice_index :: "nat \<Rightarrow> int \<Rightarrow> nat" where
  "slice_index n i = (if i < 0 then nat (max 0 (int n + i)) else min n (nat i))"

definition slice :: "string \<Rightarrow> int \<Rightarrow> int \<Rightarrow> string" where
  "slice s i j =
     (let a = slice_index (length s) i; b = slice_index (length s) j
      in take (b - a) (drop a s))"

definition slice_from :: "string \<Rightarrow> int \<Rightarrow> string" where
  "slice_from s i = drop (slice_index (length s) i) s"

text \<open>
  \<^verbatim>\<open>s.replace(old, new)\<close>: the occurrences of \<open>old\<close> are found from the left and do not
  overlap. With an empty \<open>old\<close>, Python puts \<open>new\<close> before every character and at the end.
\<close>

function replace :: "string \<Rightarrow> string \<Rightarrow> string \<Rightarrow> string" where
  "replace [] old new = (if old = [] then new else [])"
| "replace (c # s) old new =
     (if old = [] then new @ c # replace s old new
      else if startswith (c # s) old then new @ replace (drop (length old) (c # s)) old new
      else c # replace s old new)"
  by pat_completeness auto
termination
  by (relation "measure (\<lambda>(s, old, new). length s)") auto

section \<open>The line parser\<close>

text \<open>\<^verbatim>\<open>CsvToJsonConverter.normalize_value\<close> (converter.py, lines 77 to 89).\<close>

definition normalize_value :: "string \<Rightarrow> string" where
  "normalize_value value0 =
     (let value1 = strip value0;
          value2 = (if startswith value1 [quote] \<and> endswith value1 [quote]
                    then slice value1 1 (- 1) else value1)
      in replace value2 [quote, quote] [quote])"

text \<open>
  \<^verbatim>\<open>CsvToJsonConverter.parse_line\<close> (converter.py, lines 49 to 75). The state of the
  \<^verbatim>\<open>for\<close> loop is the list of fields found so far, the start of the current field and
  the number of quote characters seen.
\<close>

record scan =
  parsed_line :: "string list"
  start_index :: nat
  quotes_number :: nat

fun parse_loop :: "string \<Rightarrow> (nat \<times> char) list \<Rightarrow> scan \<Rightarrow> scan" where
  "parse_loop line [] st = st"
| "parse_loop line ((index, char) # rest) st =
     (if char = comma \<and> quotes_number st mod 2 = 0 then
        parse_loop line rest
          (st\<lparr>parsed_line :=
                parsed_line st @ [normalize_value (slice line (int (start_index st)) (int index))],
              start_index := index + 1\<rparr>)
      else if char = quote then
        parse_loop line rest (st\<lparr>quotes_number := quotes_number st + 1\<rparr>)
      else parse_loop line rest st)"

definition parse_line :: "string \<Rightarrow> string list" where
  "parse_line line0 =
     (let line = (if endswith line0 [newline] then slice line0 0 (- 1) else line0);
          st = parse_loop line (enumerate 0 line)
                 \<lparr>parsed_line = [], start_index = 0, quotes_number = 0\<rparr>
      in parsed_line st @ [normalize_value (slice_from line (int (start_index st)))])"

section \<open>Files\<close>

text \<open>
  Every call on a file either returns or raises; the result of a call is the pair of an
  \<open>error + 'a\<close> (\<open>Inl\<close> the exception raised) and the state the call leaves behind.
\<close>

datatype error =
  NotImplementedError | FileNotFoundError | ValueError | UnsupportedOperation
  | UnicodeDecodeError | OSError

definition and_then ::
  "('s \<Rightarrow> (error + 'a) \<times> 's) \<Rightarrow> ('a \<Rightarrow> 's \<Rightarrow> (error + 'b) \<times> 's) \<Rightarrow> 's \<Rightarrow> (error + 'b) \<times> 's" where
  "and_then m k s = (case m s of (Inl e, s') \<Rightarrow> (Inl e, s') | (Inr x, s') \<Rightarrow> k x s')"

text \<open>
  The source file, open for reading in text mode. \<open>pending\<close> is what the coming calls of
  \<^verbatim>\<open>readline\<close> deliver, in order: a line of text, or an exception of the device or of the
  decoder. Once it is used up the file is at its end, where \<^verbatim>\<open>readline\<close> returns the
  empty string.
\<close>

record reader =
  pending :: "(error + string) list"
  src_closed :: bool

definition readline :: "reader \<Rightarrow> (error + string) \<times> reader" where
  "readline f =
     (if src_closed f then (Inl ValueError, f)
      else case pending f of
             [] \<Rightarrow> (Inr [], f)
           | Inl e # rest \<Rightarrow> (Inl e, f\<lparr>pending := rest\<rparr>)
           | Inr line # rest \<Rightarrow> (Inr line, f\<lparr>pending := rest\<rparr>))"

text \<open>
  The destination file, open for writing in text mode: its content and the position of
  the next write. Everything the converter writes is ASCII, so a character is a byte.
  A call on a closed file raises; failures of the device on writing are not modelled.
\<close>

record writer =
  content :: string
  position :: nat
  dest_closed :: bool

datatype whence = SEEK_SET | SEEK_END

definition write_str :: "string \<Rightarrow> writer \<Rightarrow> (error + nat) \<times> writer" where
  "write_str s f =
     (if dest_closed f then (Inl ValueError, f)
      else (Inr (length s),
            f\<lparr>content :=
                 take (position f) (content f)
                 @ replicate (position f - length (content f)) (CHR 0x00)
                 @ s @ drop (position f + length s) (content f),
               position := position f + length s\<rparr>))"

definition seek :: "int \<Rightarrow> whence \<Rightarrow> writer \<Rightarrow> (error + nat) \<times> writer" where
  "seek offset wh f =
     (if dest_closed f then (Inl ValueError, f)
      else case wh of
             SEEK_SET \<Rightarrow>
               (if offset < 0 then (Inl ValueError, f)
                else (Inr (nat offset), f\<lparr>position := nat offset\<rparr>))
           | SEEK_END \<Rightarrow>
               (if offset \<noteq> 0 then (Inl UnsupportedOperation, f)
                else (Inr (length (content f)), f\<lparr>position := length (content f)\<rparr>)))"

definition tell :: "writer \<Rightarrow> (error + nat) \<times> writer" where
  "tell f = (if dest_closed f then (Inl ValueError, f) else (Inr (position f), f))"

section \<open>JSON text of a record\<close>

text \<open>
  \<^verbatim>\<open>dict(pairs)\<close> as an association list in insertion order: a key that comes again keeps
  its place and takes the new value.
\<close>

definition dict :: "(string \<times> string) list \<Rightarrow> (string \<times> string) list" where
  "dict ps = fold (\<lambda>(k, v) d. AList.update k v d) ps []"

text \<open>
  \<^verbatim>\<open>json.dumps\<close> of a dictionary of strings, with the defaults of the library
  (\<^verbatim>\<open>ensure_ascii\<close>, separators \<^verbatim>\<open>', '\<close> and \<^verbatim>\<open>': '\<close>).
\<close>

definition hex_digit :: "nat \<Rightarrow> char" where
  "hex_digit n = ''0123456789abcdef'' ! (n mod 16)"

definition escape_char :: "char \<Rightarrow> string" where
  "escape_char c =
     (if c = quote then [backslash, quote]
      else if c = backslash then [backslash, backslash]
      else if c = newline then [backslash, CHR ''n'']
      else if c = CHR 0x0D then [backslash, CHR ''r'']
      else if c = CHR 0x09 then [backslash, CHR ''t'']
      else if c = CHR 0x0C then [backslash, CHR ''f'']
      else if c = CHR 0x08 then [backslash, CHR ''b'']
      else if (of_char c :: nat) < 32 \<or> 126 < (of_char c :: nat) then
        [backslash, CHR ''u'', CHR ''0'', CHR ''0'',
         hex_digit (of_char c div 16), hex_digit (of_char c)]
      else [c])"

definition json_string :: "string \<Rightarrow> string" where
  "json_string s = quote # concat (map escape_char s) @ [quote]"

fun join :: "string \<Rightarrow> string list \<Rightarrow> string" where
  "join sep [] = []"
| "join sep [x] = x"
| "join sep (x # y # ys) = x @ sep @ join sep (y # ys)"

definition json_dumps :: "(string \<times> string) list \<Rightarrow> string" where
  "json_dumps d =
     ''{'' @ join '', '' (map (\<lambda>(k, v). json_string k @ '': '' @ json_string v) d) @ ''}''"

section \<open>The converter\<close>

record converter =
  source_file :: reader
  dest_file :: writer

definition on_source ::
  "(reader \<Rightarrow> (error + 'a) \<times> reader) \<Rightarrow> converter \<Rightarrow> (error + 'a) \<times> converter" where
  "on_source m c = (case m (source_file c) of (r, f) \<Rightarrow> (r, c\<lparr>source_file := f\<rparr>))"

definition on_dest ::
  "(writer \<Rightarrow> (error + 'a) \<times> writer) \<Rightarrow> converter \<Rightarrow> (error + 'a) \<times> converter" where
  "on_dest m c = (case m (dest_file c) of (r, f) \<Rightarrow> (r, c\<lparr>dest_file := f\<rparr>))"

text \<open>
  \<^verbatim>\<open>BaseConverter.__init__\<close> (lines 13 to 15). The argument is what the file system holds
  under the source name: nothing, or the lines of the file. The destination is created
  or truncated.
\<close>

definition opened :: "(error + string) list \<Rightarrow> converter" where
  "opened ls =
     \<lparr>source_file = \<lparr>pending = ls, src_closed = False\<rparr>,
      dest_file = \<lparr>content = [], position = 0, dest_closed = False\<rparr>\<rparr>"

definition init :: "(error + string) list option \<Rightarrow> error + converter" where
  "init source =
     (case source of
        None \<Rightarrow> Inl FileNotFoundError
      | Some ls \<Rightarrow> Inr (opened ls))"

definition json_file_header :: string where
  \<open>json_file_header = ''{"data": [''\<close>

definition json_file_footer :: string where
  "json_file_footer = '']}''"

text \<open>\<^verbatim>\<open>_write_json_file_header\<close> (lines 110 and 111).\<close>

definition write_json_file_header :: "converter \<Rightarrow> (error + nat) \<times> converter" where
  "write_json_file_header = on_dest (write_str json_file_header)"

text \<open>\<^verbatim>\<open>get_csv_headers\<close> (lines 91 to 94).\<close>

definition get_csv_headers :: "converter \<Rightarrow> (error + string list) \<times> converter" where
  "get_csv_headers = and_then (on_source readline) (\<lambda>line c. (Inr (parse_line line), c))"

text \<open>\<^verbatim>\<open>write_json_data\<close> (lines 105 to 108).\<close>

definition write_json_data ::
  "string list \<Rightarrow> string list \<Rightarrow> converter \<Rightarrow> (error + nat) \<times> converter" where
  "write_json_data headers line =
     (let data = dict (zip headers line);
          data = json_dumps data @ '', ''
      in on_dest (write_str data))"

text \<open>
  The loop of \<^verbatim>\<open>_convert_data\<close> (lines 43 to 45) over the generator
  \<^verbatim>\<open>source_file_lines\<close> (lines 96 to 103): read a line, stop at the empty string, else
  parse and write it.
\<close>

function convert_lines :: "string list \<Rightarrow> converter \<Rightarrow> (error + unit) \<times> converter" where
  "convert_lines headers c =
     (case readline (source_file c) of
        (Inl e, f) \<Rightarrow> (Inl e, c\<lparr>source_file := f\<rparr>)
      | (Inr line, f) \<Rightarrow>
          if line = [] then (Inr (), c\<lparr>source_file := f\<rparr>)
          else (case write_json_data headers (parse_line line) (c\<lparr>source_file := f\<rparr>) of
                  (Inl e, c') \<Rightarrow> (Inl e, c')
                | (Inr n, c') \<Rightarrow> convert_lines headers c'))"
  by pat_completeness auto
termination
proof (relation "measure (\<lambda>(headers, c). length (pending (source_file c)))")
  show "wf (measure (\<lambda>(headers, c). length (pending (source_file c))))"
    by simp
next
  fix headers :: "string list" and c :: converter and x f line r c' and n :: nat
  assume rd: "(x, f) = readline (source_file c)" "x = Inr line" "line \<noteq> []"
    and wr: "(r, c') = write_json_data headers (parse_line line) (c\<lparr>source_file := f\<rparr>)"
      "r = Inr n"
  have "length (pending f) < length (pending (source_file c))"
    using rd by (auto simp: readline_def split: if_splits list.splits sum.splits)
  moreover have "source_file c' = f"
    using wr by (auto simp: write_json_data_def on_dest_def split: prod.splits)
  ultimately show "((headers, c'), (headers, c))
      \<in> measure (\<lambda>(headers, c). length (pending (source_file c)))"
    by simp
qed

declare convert_lines.simps [simp del]

text \<open>\<^verbatim>\<open>_write_json_file_footer\<close> (lines 113 to 119).\<close>

definition write_json_file_footer :: "converter \<Rightarrow> (error + nat) \<times> converter" where
  "write_json_file_footer =
     and_then (on_dest (seek 0 SEEK_END)) (\<lambda>_.
     and_then (on_dest tell) (\<lambda>t.
     and_then (on_dest (seek (int t - 2) SEEK_SET)) (\<lambda>_.
     on_dest (write_str json_file_footer))))"

text \<open>
  \<^verbatim>\<open>CsvToJsonConverter._convert_data\<close> (lines 36 to 47), in two parts: everything before
  the footer, and the whole.
\<close>

definition convert_records :: "converter \<Rightarrow> (error + unit) \<times> converter" where
  "convert_records =
     and_then write_json_file_header (\<lambda>_.
     and_then get_csv_headers (\<lambda>headers.
     convert_lines headers))"

definition convert_data :: "converter \<Rightarrow> (error + unit) \<times> converter" where
  "convert_data =
     and_then convert_records (\<lambda>_.
     and_then write_json_file_footer (\<lambda>_ c. (Inr (), c)))"

text \<open>\<^verbatim>\<open>BaseConverter._convert_data\<close> (lines 21 and 22).\<close>

definition base_convert_data :: "converter \<Rightarrow> (error + unit) \<times> converter" where
  "base_convert_data c = (Inl NotImplementedError, c)"

text \<open>\<^verbatim>\<open>_close_files\<close> (lines 24 to 26). Closing a closed file does nothing.\<close>

definition close_files :: "converter \<Rightarrow> (error + unit) \<times> converter" where
  "close_files c =
     (Inr (), c\<lparr>source_file := (source_file c)\<lparr>src_closed := True\<rparr>,
                dest_file := (dest_file c)\<lparr>dest_closed := True\<rparr>\<rparr>)"

text \<open>
  \<^verbatim>\<open>BaseConverter.convert\<close> (lines 17 to 19). The subclass overrides
  \<^verbatim>\<open>_convert_data\<close>, so the method takes it as its first argument.
\<close>

definition convert ::
  "(converter \<Rightarrow> (error + unit) \<times> converter) \<Rightarrow> converter \<Rightarrow> (error + unit) \<times> converter" where
  "convert conv_data = and_then conv_data (\<lambda>_. close_files)"

definition csv_to_json :: "converter \<Rightarrow> (error + unit) \<times> converter" where
  "csv_to_json = convert convert_data"

section \<open>The vocabulary of the specification\<close>

text \<open>
  The definitions of this section are not taken from the code: they say, in the words of
  the specification, what the code is compared with.
\<close>

text \<open>Removing one trailing newline character, if there is one.\<close>

definition chomp :: "string \<Rightarrow> string" where
  "chomp s = (if s \<noteq> [] \<and> last s = newline then butlast s else s)"

text \<open>
  A qualifying separator of \<open>s\<close> is a position that holds a comma and has an even number
  of double-quote characters before it.
\<close>

definition separator_at :: "string \<Rightarrow> nat \<Rightarrow> bool" where
  "separator_at s i = (s ! i = comma \<and> even (count_list (take i s) quote))"

definition separators :: "string \<Rightarrow> nat list" where
  "separators s = filter (separator_at s) [0..<length s]"

text \<open>
  Splitting \<open>s\<close> at the positions \<open>seps\<close>: the text from \<open>start\<close> up to the first position,
  then the texts between one position and the next, then the text after the last one.
\<close>

definition pieces :: "string \<Rightarrow> nat \<Rightarrow> nat list \<Rightarrow> string list" where
  "pieces s start seps =
     map (\<lambda>(a, b). take (b - a) (drop a s)) (zip (start # map Suc seps) (seps @ [length s]))"

definition split_at :: "string \<Rightarrow> nat list \<Rightarrow> string list" where
  "split_at s seps = pieces s 0 seps"

text \<open>The JSON text of the record of one data line, under the given headers.\<close>

definition json_object :: "string list \<Rightarrow> string \<Rightarrow> string" where
  "json_object headers line = json_dumps (dict (zip headers (parse_line line)))"

text \<open>
  The document around the given objects: the opening fragment, the objects separated by
  a comma and a space, the closing fragment.
\<close>

definition document :: "string list \<Rightarrow> string" where
  "document objects = json_file_header @ join '', '' objects @ json_file_footer"

text \<open>The steps (b) and (c) of normalization; step (a) is \<^const>\<open>strip\<close>.\<close>

definition unwrap_quotes :: "string \<Rightarrow> string" where
  "unwrap_quotes t = (if t \<noteq> [] \<and> hd t = quote \<and> last t = quote then butlast (tl t) else t)"

fun unescape_quotes :: "string \<Rightarrow> string" where
  "unescape_quotes (a # b # s) =
     (if a = quote \<and> b = quote then quote # unescape_quotes s else a # unescape_quotes (b # s))"
| "unescape_quotes s = s"

text \<open>\<open>s\<close> has no whitespace at either end.\<close>

definition trimmed :: "string \<Rightarrow> bool" where
  "trimmed s = (s = [] \<or> (\<not> isspace (hd s) \<and> \<not> isspace (last s)))"

text \<open>\<open>p\<close> occurs in \<open>s\<close>.\<close>

fun contains :: "string \<Rightarrow> string \<Rightarrow> bool" where
  "contains [] p = (p = [])"
| "contains (c # s) p = (startswith (c # s) p \<or> contains s p)"

text \<open>A call that leaves both files open or closed as it found them.\<close>

definition keeps_flags :: "(converter \<Rightarrow> (error + 'a) \<times> converter) \<Rightarrow> bool" where
  "keeps_flags m =
     (\<forall>c. src_closed (source_file (snd (m c))) = src_closed (source_file c)
        \<and> dest_closed (dest_file (snd (m c))) = dest_closed (dest_file c))"

section \<open>Strings: lemmas\<close>

lemma startswith_single: "startswith s [c] = (s \<noteq> [] \<and> hd s = c)"
  by (cases s) (auto simp: startswith_def)

lemma endswith_single: "endswith s [c] = (s \<noteq> [] \<and> last s = c)"
proof (cases s rule: rev_cases)
  case Nil
  then show ?thesis by (simp add: endswith_def)
next
  case (snoc ys y)
  then show ?thesis by (simp add: endswith_def)
qed

lemma slice_1_m1: "slice s 1 (- 1) = butlast (tl s)"
proof (cases s)
  case Nil
  then show ?thesis by (simp add: slice_def slice_index_def)
next
  case (Cons a t)
  then show ?thesis
    by (simp add: slice_def slice_index_def butlast_conv_take nat_diff_distrib' max_def)
qed

lemma slice_0_m1: "slice s 0 (- 1) = butlast s"
  by (cases s) (simp_all add: slice_def slice_index_def butlast_conv_take max_def)

lemma replace_quotes: "replace s [quote, quote] [quote] = unescape_quotes s"
  by (induction s rule: unescape_quotes.induct) (auto simp: startswith_def)

lemma contains_iff: "contains s p \<longleftrightarrow> (\<exists>a b. s = a @ p @ b)"
proof (induction s)
  case Nil
  then show ?case by auto
next
  case (Cons c s)
  have "startswith (c # s) p \<longleftrightarrow> (\<exists>b. c # s = p @ b)"
    unfolding startswith_def by (metis append_eq_conv_conj append_take_drop_id)
  moreover have "(\<exists>a b. c # s = a @ p @ b) \<longleftrightarrow> (\<exists>b. c # s = p @ b) \<or> (\<exists>a b. s = a @ p @ b)"
    (is "?L \<longleftrightarrow> ?R")
  proof
    assume ?L
    then obtain a b where ab: "c # s = a @ p @ b" by blast
    show ?R
    proof (cases a)
      case Nil
      with ab show ?thesis by auto
    next
      case (Cons x a')
      with ab have "s = a' @ p @ b" by simp
      then show ?thesis by blast
    qed
  next
    assume ?R
    then show ?L
    proof
      assume "\<exists>b. c # s = p @ b"
      then obtain b where "c # s = [] @ p @ b" by auto
      then show ?L by blast
    next
      assume "\<exists>a b. s = a @ p @ b"
      then obtain a b where "c # s = (c # a) @ p @ b" by auto
      then show ?L by blast
    qed
  qed
  ultimately show ?case using Cons.IH by simp
qed

lemma replace_absent: "old \<noteq> [] \<Longrightarrow> \<not> contains s old \<Longrightarrow> replace s old new = s"
  by (induction s) auto

lemma rstrip_id: "s = [] \<or> \<not> isspace (last s) \<Longrightarrow> rstrip s = s"
  by (cases s rule: rev_cases) (auto simp: rstrip_def)

lemma lstrip_id: "s = [] \<or> \<not> isspace (hd s) \<Longrightarrow> lstrip s = s"
  by (cases s) (auto simp: lstrip_def)

lemma strip_trimmed: "trimmed s \<Longrightarrow> strip s = s"
  by (auto simp: trimmed_def strip_def lstrip_id rstrip_id)

lemma trimmed_strip: "trimmed (strip s)"
proof -
  have l: "lstrip s = [] \<or> \<not> isspace (hd (lstrip s))"
    unfolding lstrip_def by (metis hd_dropWhile)
  have r: "rstrip t = [] \<or> \<not> isspace (last (rstrip t))" for t
    unfolding rstrip_def by (metis hd_dropWhile last_rev rev_is_Nil_conv)
  have h: "rstrip t \<noteq> [] \<Longrightarrow> hd (rstrip t) = hd t" for t
  proof (induction t rule: rev_induct)
    case Nil
    then show ?case by (simp add: rstrip_def)
  next
    case (snoc x xs)
    then show ?case by (cases xs) (auto simp: rstrip_def split: if_splits)
  qed
  show ?thesis
    unfolding trimmed_def strip_def using l r [of "lstrip s"] h [of "lstrip s"]
    by (metis rstrip_def dropWhile.simps(1) rev.simps(1))
qed

lemma strip_decompose:
  "\<exists>a b. s = a @ strip s @ b \<and> list_all isspace a \<and> list_all isspace b"
proof -
  let ?a = "takeWhile isspace s"
  let ?b = "rev (takeWhile isspace (rev (lstrip s)))"
  have l: "s = ?a @ lstrip s"
    by (simp add: lstrip_def)
  have "rev (takeWhile isspace (rev (lstrip s)) @ dropWhile isspace (rev (lstrip s)))
          = lstrip s"
    by (simp only: takeWhile_dropWhile_id rev_rev_ident)
  then have r: "lstrip s = strip s @ ?b"
    by (simp only: rev_append strip_def rstrip_def)
  have "s = ?a @ strip s @ ?b"
    using l r by simp
  moreover have "list_all isspace ?a"
    by (simp add: list_all_iff) (meson set_takeWhileD)
  moreover have "list_all isspace ?b"
    by (simp add: list_all_iff) (meson set_takeWhileD)
  ultimately show ?thesis by blast
qed

lemma normalize_value_steps: "normalize_value v = unescape_quotes (unwrap_quotes (strip v))"
  by (simp add: normalize_value_def Let_def unwrap_quotes_def startswith_single endswith_single
      slice_1_m1 replace_quotes)

section \<open>The line parser: lemmas\<close>

lemma slice_nat: "b \<le> length s \<Longrightarrow> slice s (int a) (int b) = take (b - a) (drop a s)"
  by (cases "a \<le> length s") (simp_all add: slice_def slice_index_def min_def)

lemma slice_from_nat: "slice_from s (int a) = drop a s"
  by (simp add: slice_from_def slice_index_def min_def)

lemma pieces_Nil: "pieces s start [] = [drop start s]"
  by (simp add: pieces_def)

lemma pieces_Cons: "pieces s start (i # seps) = take (i - start) (drop start s) # pieces s (Suc i) seps"
  by (simp add: pieces_def)

lemma length_pieces: "length (pieces s start seps) = Suc (length seps)"
  by (simp add: pieces_def)

lemma parse_loop_pieces:
  assumes "i \<le> length s" and "quotes_number st = count_list (take i s) quote"
  shows "parsed_line (parse_loop s (enumerate i (drop i s)) st)
           @ [normalize_value (slice_from s (int (start_index (parse_loop s (enumerate i (drop i s)) st))))]
         = parsed_line st
           @ map normalize_value (pieces s (start_index st) (filter (separator_at s) [i..<length s]))"
  using assms
proof (induction "length s - i" arbitrary: i st)
  case 0
  then show ?case by (simp add: pieces_Nil slice_from_nat)
next
  case (Suc n)
  then have lt: "i < length s" by simp
  have dr: "drop i s = s ! i # drop (Suc i) s"
    using lt by (simp add: Cons_nth_drop_Suc)
  have up: "[i..<length s] = i # [Suc i..<length s]"
    using lt by (simp add: upt_conv_Cons)
  have cnt: "count_list (take (Suc i) s) quote
               = count_list (take i s) quote + (if s ! i = quote then 1 else 0)"
    using lt by (simp add: take_Suc_conv_app_nth)
  have n: "n = length s - Suc i" using Suc.hyps(2) by simp
  have le: "Suc i \<le> length s" using lt by simp
  have cq: "comma \<noteq> quote" by (simp add: comma_def quote_def)
  consider (sep) "s ! i = comma" "quotes_number st mod 2 = 0"
    | (quo) "s ! i = quote"
    | (oth) "s ! i \<noteq> quote" "\<not> (s ! i = comma \<and> quotes_number st mod 2 = 0)"
    using cq by metis
  then show ?case
  proof cases
    case sep
    let ?st = "st\<lparr>parsed_line := parsed_line st @ [normalize_value (slice s (int (start_index st)) (int i))],
                   start_index := i + 1\<rparr>"
    have q: "quotes_number ?st = count_list (take (Suc i) s) quote"
      using Suc.prems(2) sep cq by (simp add: cnt)
    have P: "separator_at s i"
      using sep Suc.prems(2) by (simp add: separator_at_def even_iff_mod_2_eq_zero)
    have step: "parse_loop s (enumerate i (drop i s)) st
                  = parse_loop s (enumerate (Suc i) (drop (Suc i) s)) ?st"
      using sep by (simp add: dr)
    show ?thesis
      unfolding step Suc.hyps(1) [OF n le q]
      using P lt by (simp add: up pieces_Cons slice_nat)
  next
    case quo
    let ?st = "st\<lparr>quotes_number := quotes_number st + 1\<rparr>"
    have q: "quotes_number ?st = count_list (take (Suc i) s) quote"
      using Suc.prems(2) quo by (simp add: cnt)
    have P: "\<not> separator_at s i"
      using quo cq by (simp add: separator_at_def)
    have step: "parse_loop s (enumerate i (drop i s)) st
                  = parse_loop s (enumerate (Suc i) (drop (Suc i) s)) ?st"
      using quo cq by (simp add: dr)
    show ?thesis
      unfolding step Suc.hyps(1) [OF n le q]
      using P by (simp add: up)
  next
    case oth
    have q: "quotes_number st = count_list (take (Suc i) s) quote"
      using Suc.prems(2) oth by (simp add: cnt)
    have P: "\<not> separator_at s i"
      using oth Suc.prems(2) by (auto simp: separator_at_def even_iff_mod_2_eq_zero)
    have step: "parse_loop s (enumerate i (drop i s)) st
                  = parse_loop s (enumerate (Suc i) (drop (Suc i) s)) st"
      using oth by (auto simp: dr)
    show ?thesis
      unfolding step Suc.hyps(1) [OF n le q]
      using P by (simp add: up)
  qed
qed

lemma join_Cons: "ys \<noteq> [] \<Longrightarrow> join sep (x # ys) = x @ sep @ join sep ys"
  by (cases ys) simp_all

lemma pieces_not_Nil: "pieces s start seps \<noteq> []"
  by (simp add: pieces_def)

lemma join_pieces:
  assumes "start \<le> i" and "i \<le> length s"
  shows "join [comma] (pieces s start (filter (separator_at s) [i..<length s])) = drop start s"
  using assms
proof (induction "length s - i" arbitrary: i start)
  case 0
  then show ?case by (simp add: pieces_Nil)
next
  case (Suc n)
  then have lt: "i < length s" by simp
  have up: "[i..<length s] = i # [Suc i..<length s]"
    using lt by (simp add: upt_conv_Cons)
  have n: "n = length s - Suc i" using Suc.hyps(2) by simp
  show ?case
  proof (cases "separator_at s i")
    case True
    have rest: "join [comma] (pieces s (Suc i) (filter (separator_at s) [Suc i..<length s]))
                  = drop (Suc i) s"
      using Suc.hyps(1) [OF n] lt by simp
    have "drop start s = take (i - start) (drop start s) @ drop (i - start) (drop start s)"
      by (simp only: append_take_drop_id)
    also have "drop (i - start) (drop start s) = drop i s"
      using Suc.prems(1) by simp
    also have "drop i s = comma # drop (Suc i) s"
      using lt True by (simp add: separator_at_def flip: Cons_nth_drop_Suc)
    finally have "drop start s = take (i - start) (drop start s) @ [comma] @ drop (Suc i) s"
      by simp
    then show ?thesis
      using True rest by (simp add: up pieces_Cons join_Cons pieces_not_Nil)
  next
    case False
    have "join [comma] (pieces s start (filter (separator_at s) [Suc i..<length s]))
            = drop start s"
      using Suc.hyps(1) [OF n] lt Suc.prems(1) by simp
    then show ?thesis
      using False by (simp add: up)
  qed
qed

lemma join_split_at: "join [comma] (split_at s (separators s)) = s"
  using join_pieces [of 0 0 s] by (simp add: split_at_def separators_def)

lemma chomp_code: "(if endswith s [newline] then slice s 0 (- 1) else s) = chomp s"
  by (simp add: chomp_def endswith_single slice_0_m1)

lemma parse_line_pieces:
  "parse_line l = map normalize_value (split_at (chomp l) (separators (chomp l)))"
  using parse_loop_pieces [of 0 "chomp l" "\<lparr>parsed_line = [], start_index = 0, quotes_number = 0\<rparr>"]
  by (simp add: parse_line_def chomp_code Let_def split_at_def separators_def)

section \<open>Records: lemmas\<close>

lemma map_of_fold_update:
  "map_of (fold (\<lambda>(k, v) d. AList.update k v d) ps d) = map_of d ++ map_of (rev ps)"
proof (induction ps arbitrary: d)
  case Nil
  then show ?case by simp
next
  case (Cons p ps)
  obtain k v where p: "p = (k, v)" by (cases p)
  have "map_of (AList.update k v d) ++ map_of (rev ps)
          = map_of d ++ (map_of [(k, v)] ++ map_of (rev ps))"
    by (rule ext) (simp add: update_conv' map_add_def split: option.splits)
  then show ?case by (simp add: Cons.IH p)
qed

lemma map_of_dict: "map_of (dict ps) = map_of (rev ps)"
  by (simp add: dict_def map_of_fold_update)

lemma keys_fold_update:
  "fst ` set (fold (\<lambda>(k, v) d. AList.update k v d) ps d) = fst ` set d \<union> fst ` set ps"
  by (induction ps arbitrary: d) (auto simp: dom_update split: prod.splits)

lemma keys_dict: "fst ` set (dict ps) = fst ` set ps"
  by (simp add: dict_def keys_fold_update)

lemma distinct_fold_update:
  "distinct (map fst d) \<Longrightarrow> distinct (map fst (fold (\<lambda>(k, v) d. AList.update k v d) ps d))"
  by (induction ps arbitrary: d) (auto simp: distinct_update split: prod.splits)

lemma distinct_dict: "distinct (map fst (dict ps))"
  by (simp add: dict_def distinct_fold_update)

lemma length_dict: "length (dict ps) = card (fst ` set ps)"
proof -
  have "length (dict ps) = length (map fst (dict ps))" by simp
  also have "\<dots> = card (set (map fst (dict ps)))"
    using distinct_dict [of ps] by (simp only: distinct_card)
  also have "\<dots> = card (fst ` set ps)"
    by (simp add: keys_dict)
  finally show ?thesis .
qed

lemma update_absent: "k \<notin> fst ` set al \<Longrightarrow> AList.update k v al = al @ [(k, v)]"
  by (induction al) auto

lemma fold_update_distinct:
  "distinct (map fst ps) \<Longrightarrow> fst ` set ps \<inter> fst ` set d = {} \<Longrightarrow>
   fold (\<lambda>(k, v) d. AList.update k v d) ps d = d @ ps"
proof (induction ps arbitrary: d)
  case Nil
  then show ?case by simp
next
  case (Cons p ps)
  obtain k v where p: "p = (k, v)" by (cases p)
  have k: "k \<notin> fst ` set d" using Cons.prems(2) p by auto
  have "fst ` set ps \<inter> fst ` set (d @ [(k, v)]) = {}"
    using Cons.prems p by auto
  then show ?case
    using Cons.prems(1) Cons.IH [of "d @ [(k, v)]"] by (simp add: p update_absent [OF k])
qed

lemma dict_distinct: "distinct (map fst ps) \<Longrightarrow> dict ps = ps"
  by (simp add: dict_def fold_update_distinct)

lemma map_of_rev_last_occurrence:
  "i < length ps \<Longrightarrow> (\<forall>j. i < j \<and> j < length ps \<longrightarrow> fst (ps ! j) \<noteq> fst (ps ! i)) \<Longrightarrow>
   map_of (rev ps) (fst (ps ! i)) = Some (snd (ps ! i))"
proof (induction ps rule: rev_induct)
  case Nil
  then show ?case by simp
next
  case (snoc q qs)
  show ?case
  proof (cases "i = length qs")
    case True
    then show ?thesis by simp
  next
    case False
    then have lt: "i < length qs" using snoc.prems(1) by simp
    have "fst ((qs @ [q]) ! length qs) \<noteq> fst ((qs @ [q]) ! i)"
      using snoc.prems(2) lt by (metis length_append_singleton lessI)
    then have ne: "fst q \<noteq> fst (qs ! i)"
      using lt by (simp add: nth_append)
    have "\<forall>j. i < j \<and> j < length qs \<longrightarrow> fst (qs ! j) \<noteq> fst (qs ! i)"
    proof (intro allI impI)
      fix j assume j: "i < j \<and> j < length qs"
      then have "fst ((qs @ [q]) ! j) \<noteq> fst ((qs @ [q]) ! i)"
        using snoc.prems(2) by (metis length_append_singleton less_SucI)
      then show "fst (qs ! j) \<noteq> fst (qs ! i)"
        using j lt by (simp add: nth_append)
    qed
    then have "map_of (rev qs) (fst (qs ! i)) = Some (snd (qs ! i))"
      using snoc.IH lt by blast
    then show ?thesis
      using lt ne by (simp add: nth_append)
  qed
qed

lemma zip_nth_pairs: "zip H L = map (\<lambda>i. (H ! i, L ! i)) [0..<min (length H) (length L)]"
  by (rule nth_equalityI) simp_all

lemma keys_zip: "fst ` set (zip H L) = set (take (length L) H)"
proof -
  have "fst ` set (zip H L) = set (map fst (zip H L))" by simp
  also have "map fst (zip H L) = take (length L) H"
    by (rule nth_equalityI) simp_all
  finally show ?thesis .
qed

lemma zip_take_left: "zip (take (length L) H) L = zip H L"
  by (rule nth_equalityI) simp_all

lemma zip_take_right: "zip H (take (length H) L) = zip H L"
  by (rule nth_equalityI) simp_all

section \<open>The converter: lemmas\<close>

lemma write_at_end:
  assumes "\<not> dest_closed f" and "position f = length (content f)"
  shows "write_str s f =
           (Inr (length s), f\<lparr>content := content f @ s, position := length (content f) + length s\<rparr>)"
  using assms by (simp add: write_str_def)

lemma write_json_data_at_end:
  assumes "\<not> dest_closed (dest_file c)"
    and "position (dest_file c) = length (content (dest_file c))"
  shows "write_json_data h (parse_line l) c =
           (Inr (length (json_object h l @ '', '')),
            c\<lparr>dest_file := (dest_file c)
                 \<lparr>content := content (dest_file c) @ json_object h l @ '', '',
                  position := length (content (dest_file c)) + length (json_object h l @ '', '')\<rparr>\<rparr>)"
  using assms
  by (simp add: write_json_data_def Let_def on_dest_def write_at_end json_object_def)

lemma convert_lines_all:
  assumes "\<not> src_closed (source_file c)"
    and "\<not> dest_closed (dest_file c)"
    and "position (dest_file c) = length (content (dest_file c))"
    and "pending (source_file c) = map Inr ls"
    and "[] \<notin> set ls"
  shows "convert_lines h c =
           (Inr (),
            c\<lparr>source_file := (source_file c)\<lparr>pending := []\<rparr>,
              dest_file := (dest_file c)
                \<lparr>content := content (dest_file c) @ concat (map (\<lambda>l. json_object h l @ '', '') ls),
                 position := length (content (dest_file c)
                                     @ concat (map (\<lambda>l. json_object h l @ '', '') ls))\<rparr>\<rparr>)"
  using assms
proof (induction ls arbitrary: c)
  case Nil
  then have "readline (source_file c) = (Inr [], source_file c)"
    by (simp add: readline_def)
  then show ?case
    using Nil by (subst convert_lines.simps) simp
next
  case (Cons l ls)
  let ?f = "(source_file c)\<lparr>pending := map Inr ls\<rparr>"
  let ?c1 = "c\<lparr>source_file := ?f\<rparr>"
  let ?c2 = "?c1\<lparr>dest_file := (dest_file c)
                 \<lparr>content := content (dest_file c) @ json_object h l @ '', '',
                  position := length (content (dest_file c)) + length (json_object h l @ '', '')\<rparr>\<rparr>"
  have rd: "readline (source_file c) = (Inr l, ?f)"
    using Cons.prems by (simp add: readline_def)
  have l: "l \<noteq> []" using Cons.prems(5) by auto
  have wr: "write_json_data h (parse_line l) ?c1 = (Inr (length (json_object h l @ '', '')), ?c2)"
    using Cons.prems by (simp add: write_json_data_at_end)
  have step: "convert_lines h c = convert_lines h ?c2"
    using rd l wr by (subst convert_lines.simps) simp
  have "convert_lines h ?c2 =
           (Inr (),
            ?c2\<lparr>source_file := (source_file ?c2)\<lparr>pending := []\<rparr>,
              dest_file := (dest_file ?c2)
                \<lparr>content := content (dest_file ?c2) @ concat (map (\<lambda>l. json_object h l @ '', '') ls),
                 position := length (content (dest_file ?c2)
                                     @ concat (map (\<lambda>l. json_object h l @ '', '') ls))\<rparr>\<rparr>)"
    using Cons.prems by (intro Cons.IH) simp_all
  then show ?case
    unfolding step by simp
qed

lemma write_json_file_footer_open:
  assumes "\<not> dest_closed (dest_file c)" and "2 \<le> length (content (dest_file c))"
  shows "write_json_file_footer c =
           (Inr 2,
            c\<lparr>dest_file := (dest_file c)
                 \<lparr>content := take (length (content (dest_file c)) - 2) (content (dest_file c))
                              @ json_file_footer,
                  position := length (content (dest_file c))\<rparr>\<rparr>)"
proof -
  let ?n = "length (content (dest_file c))"
  have n: "nat (int ?n - 2) = ?n - 2" by arith
  have m: "Suc (Suc (?n - 2)) = ?n" using assms(2) by arith
  have neg: "\<not> int ?n - 2 < 0" using assms(2) by arith
  show ?thesis
    using assms(1) neg
    by (simp add: write_json_file_footer_def and_then_def on_dest_def seek_def tell_def
        write_str_def json_file_footer_def n m)
qed

lemma concat_join:
  "xs \<noteq> [] \<Longrightarrow> concat (map (\<lambda>x. f x @ sep) xs) = join sep (map f xs) @ sep"
proof (induction xs)
  case Nil
  then show ?case by simp
next
  case (Cons x xs)
  then show ?case by (cases xs) simp_all
qed

lemma convert_records_opened:
  assumes "[] \<notin> set ls"
  shows "convert_records (opened (Inr hl # map Inr ls)) =
           (Inr (),
            \<lparr>source_file = \<lparr>pending = [], src_closed = False\<rparr>,
             dest_file =
               \<lparr>content = json_file_header
                           @ concat (map (\<lambda>l. json_object (parse_line hl) l @ '', '') ls),
                position = length (json_file_header
                           @ concat (map (\<lambda>l. json_object (parse_line hl) l @ '', '') ls)),
                dest_closed = False\<rparr>\<rparr>)"
proof -
  let ?c1 = "\<lparr>source_file = \<lparr>pending = map Inr ls, src_closed = False\<rparr>,
             dest_file = \<lparr>content = json_file_header, position = length json_file_header,
                          dest_closed = False\<rparr>\<rparr>"
  have "convert_records (opened (Inr hl # map Inr ls)) = convert_lines (parse_line hl) ?c1"
    by (simp add: convert_records_def and_then_def write_json_file_header_def on_dest_def
        write_str_def opened_def get_csv_headers_def on_source_def readline_def)
  also have "\<dots> =
           (Inr (),
            ?c1\<lparr>source_file := (source_file ?c1)\<lparr>pending := []\<rparr>,
              dest_file := (dest_file ?c1)
                \<lparr>content := content (dest_file ?c1)
                     @ concat (map (\<lambda>l. json_object (parse_line hl) l @ '', '') ls),
                 position := length (content (dest_file ?c1)
                     @ concat (map (\<lambda>l. json_object (parse_line hl) l @ '', '') ls))\<rparr>\<rparr>)"
    using assms by (intro convert_lines_all) simp_all
  finally show ?thesis by simp
qed

lemma length_json_file_header: "length json_file_header = 10"
  by (simp add: json_file_header_def)

lemma convert_data_opened:
  assumes "[] \<notin> set ls"
  shows "convert_data (opened (Inr hl # map Inr ls)) =
           (Inr (),
            \<lparr>source_file = \<lparr>pending = [], src_closed = False\<rparr>,
             dest_file =
               \<lparr>content =
                  take (length (json_file_header
                          @ concat (map (\<lambda>l. json_object (parse_line hl) l @ '', '') ls)) - 2)
                    (json_file_header
                       @ concat (map (\<lambda>l. json_object (parse_line hl) l @ '', '') ls))
                  @ json_file_footer,
                position = length (json_file_header
                           @ concat (map (\<lambda>l. json_object (parse_line hl) l @ '', '') ls)),
                dest_closed = False\<rparr>\<rparr>)"
proof -
  define body where
    "body = json_file_header @ concat (map (\<lambda>l. json_object (parse_line hl) l @ '', '') ls)"
  have two: "2 \<le> length body"
    by (simp add: body_def length_json_file_header)
  have rec: "convert_records (opened (Inr hl # map Inr ls)) =
           (Inr (),
            \<lparr>source_file = \<lparr>pending = [], src_closed = False\<rparr>,
             dest_file = \<lparr>content = body, position = length body, dest_closed = False\<rparr>\<rparr>)"
    unfolding body_def by (rule convert_records_opened [OF assms])
  have "convert_data (opened (Inr hl # map Inr ls)) =
           (Inr (),
            \<lparr>source_file = \<lparr>pending = [], src_closed = False\<rparr>,
             dest_file = \<lparr>content = take (length body - 2) body @ json_file_footer,
                          position = length body, dest_closed = False\<rparr>\<rparr>)"
    using two by (simp add: convert_data_def and_then_def rec write_json_file_footer_open)
  then show ?thesis
    unfolding body_def .
qed

lemma take_all_but_two: "take (length (xs @ [a, b]) - 2) (xs @ [a, b]) = xs"
  by simp

lemma content_convert_data_nonempty:
  assumes "[] \<notin> set ls" and "ls \<noteq> []"
  shows "content (dest_file (snd (convert_data (opened (Inr hl # map Inr ls)))))
           = document (map (json_object (parse_line hl)) ls)"
proof -
  let ?objs = "map (json_object (parse_line hl)) ls"
  have body: "json_file_header @ concat (map (\<lambda>l. json_object (parse_line hl) l @ '', '') ls)
                = (json_file_header @ join '', '' ?objs) @ '', ''"
    using assms(2) concat_join [of ls "json_object (parse_line hl)" "'', ''"] by simp
  have "take (length ((json_file_header @ join '', '' ?objs) @ '', '') - 2)
          ((json_file_header @ join '', '' ?objs) @ '', '')
        = json_file_header @ join '', '' ?objs"
    by (rule take_all_but_two)
  then show ?thesis
    using assms(1) unfolding convert_data_opened [OF assms(1)] body
    by (simp add: document_def)
qed

lemma content_convert_data_header_only:
  \<open>content (dest_file (snd (convert_data (opened [Inr hl])))) = ''{"data":]}''\<close>
  using convert_data_opened [of "[]" hl]
  by (simp add: json_file_header_def json_file_footer_def)

lemma keeps_flags_and_then:
  assumes "keeps_flags m" and "\<And>x. keeps_flags (k x)"
  shows "keeps_flags (and_then m k)"
  unfolding keeps_flags_def
proof (intro allI)
  fix c
  obtain r c1 where mc: "m c = (r, c1)" by (cases "m c")
  have f1: "src_closed (source_file c1) = src_closed (source_file c)
              \<and> dest_closed (dest_file c1) = dest_closed (dest_file c)"
    using assms(1) mc unfolding keeps_flags_def by (metis snd_conv)
  show "src_closed (source_file (snd (and_then m k c))) = src_closed (source_file c)
          \<and> dest_closed (dest_file (snd (and_then m k c))) = dest_closed (dest_file c)"
  proof (cases r)
    case (Inl e)
    then show ?thesis using mc f1 by (simp add: and_then_def)
  next
    case (Inr x)
    then have "and_then m k c = k x c1" using mc by (simp add: and_then_def)
    then show ?thesis using assms(2) [of x] f1 unfolding keeps_flags_def by simp
  qed
qed

lemma keeps_flags_write: "keeps_flags (on_dest (write_str s))"
  by (simp add: keeps_flags_def on_dest_def write_str_def)

lemma keeps_flags_seek: "keeps_flags (on_dest (seek offset wh))"
  by (simp add: keeps_flags_def on_dest_def seek_def split: whence.splits)

lemma keeps_flags_tell: "keeps_flags (on_dest tell)"
  by (simp add: keeps_flags_def on_dest_def tell_def)

lemma keeps_flags_readline: "keeps_flags (on_source readline)"
  by (simp add: keeps_flags_def on_source_def readline_def split: list.splits sum.splits)

lemma keeps_flags_return: "keeps_flags (\<lambda>c. (r, c))"
  by (simp add: keeps_flags_def)

lemma keeps_flags_write_json_data: "keeps_flags (write_json_data h l)"
  by (simp add: write_json_data_def Let_def keeps_flags_write)

lemma convert_lines_flags:
  "src_closed (source_file (snd (convert_lines h c))) = src_closed (source_file c)
   \<and> dest_closed (dest_file (snd (convert_lines h c))) = dest_closed (dest_file c)"
proof (induction h c rule: convert_lines.induct)
  case (1 headers c)
  obtain x f where rd: "readline (source_file c) = (x, f)"
    by (cases "readline (source_file c)")
  have ff: "src_closed f = src_closed (source_file c)"
    using rd by (auto simp: readline_def split: if_splits list.splits sum.splits)
  show ?case
  proof (cases x)
    case (Inl e)
    then show ?thesis using rd ff by (subst (1 2) convert_lines.simps) simp
  next
    case (Inr line)
    show ?thesis
    proof (cases "line = []")
      case True
      then show ?thesis using rd ff Inr by (subst (1 2) convert_lines.simps) simp
    next
      case False
      obtain r c' where wr:
        "write_json_data headers (parse_line line) (c\<lparr>source_file := f\<rparr>) = (r, c')"
        by (cases "write_json_data headers (parse_line line) (c\<lparr>source_file := f\<rparr>)")
      have fl: "src_closed (source_file c') = src_closed (source_file c)
                  \<and> dest_closed (dest_file c') = dest_closed (dest_file c)"
        using keeps_flags_write_json_data [of headers "parse_line line"] wr ff
        unfolding keeps_flags_def by (metis converter.select_convs converter.surjective
            converter.update_convs(1) snd_conv)
      show ?thesis
      proof (cases r)
        case (Inl e)
        then show ?thesis
          using rd Inr False wr fl by (subst (1 2) convert_lines.simps) simp
      next
        case r: (Inr n)
        have "convert_lines headers c = convert_lines headers c'"
          using rd Inr False wr r by (subst convert_lines.simps) simp
        moreover have "src_closed (source_file (snd (convert_lines headers c')))
                         = src_closed (source_file c')
                       \<and> dest_closed (dest_file (snd (convert_lines headers c')))
                         = dest_closed (dest_file c')"
          using "1.IH" [OF rd [symmetric] Inr False wr [symmetric] r] .
        ultimately show ?thesis using fl by simp
      qed
    qed
  qed
qed

lemma keeps_flags_convert_lines: "keeps_flags (convert_lines h)"
  unfolding keeps_flags_def using convert_lines_flags by blast

lemma keeps_flags_convert_data: "keeps_flags convert_data"
  unfolding convert_data_def convert_records_def write_json_file_header_def
    get_csv_headers_def write_json_file_footer_def
  by (intro keeps_flags_and_then keeps_flags_write keeps_flags_seek keeps_flags_tell
      keeps_flags_readline keeps_flags_return keeps_flags_convert_lines)

section \<open>Claims about the line parser\<close>

text \<open>
  Claim C1. For every input string, \<open>parse_line\<close> removes one trailing newline character if
  there is one, and splits the rest at exactly the commas that have an even number of
  double-quote characters before them: the fields are the pieces between these commas,
  each normalized, and the pieces joined by commas are the text again. The number of fields
  is one plus the number of these separators, so the result is never empty, and the empty
  line (with or without its newline) gives one field, the empty string.
\<close>

theorem parse_line_fields:
  "parse_line l = map normalize_value (split_at (chomp l) (separators (chomp l)))
   \<and> join [comma] (split_at (chomp l) (separators (chomp l))) = chomp l
   \<and> length (parse_line l) = 1 + length (separators (chomp l))
   \<and> parse_line l \<noteq> []
   \<and> parse_line [] = [[]]
   \<and> parse_line [newline] = [[]]"
proof -
  have a: "parse_line l = map normalize_value (split_at (chomp l) (separators (chomp l)))"
    by (rule parse_line_pieces)
  have b: "length (parse_line l) = 1 + length (separators (chomp l))"
    by (simp add: parse_line_pieces split_at_def length_pieces)
  have c: "parse_line l \<noteq> []"
    using b by (metis add_is_0 length_0_conv zero_neq_one)
  have d: "parse_line [] = [[]]"
    by code_simp
  have e: "parse_line [newline] = [[]]"
    by code_simp
  have j: "join [comma] (split_at (chomp l) (separators (chomp l))) = chomp l"
    by (rule join_split_at)
  from a j b c d e show ?thesis by blast
qed

text \<open>
  Claim C2. For every string \<open>v\<close>, \<open>normalize_value v\<close> is the result of (a) stripping the
  whitespace at both ends, then (b) removing one leading and one trailing double quote when
  the stripped value starts and ends with one, then (c) replacing every two consecutive
  double quotes by one; and each of the five other orders of the three steps gives a
  different result on some input.
\<close>

theorem normalize_value_order:
  "normalize_value v = unescape_quotes (unwrap_quotes (strip v))
   \<and> (\<exists>u. unwrap_quotes (unescape_quotes (strip u)) \<noteq> normalize_value u)
   \<and> (\<exists>u. unescape_quotes (strip (unwrap_quotes u)) \<noteq> normalize_value u)
   \<and> (\<exists>u. strip (unescape_quotes (unwrap_quotes u)) \<noteq> normalize_value u)
   \<and> (\<exists>u. unwrap_quotes (strip (unescape_quotes u)) \<noteq> normalize_value u)
   \<and> (\<exists>u. strip (unwrap_quotes (unescape_quotes u)) \<noteq> normalize_value u)"
proof -
  have n1: \<open>normalize_value ''""""'' = ''"''\<close> by code_simp
  have n2: \<open>normalize_value '' "x" '' = ''x''\<close> by code_simp
  have acb: \<open>unwrap_quotes (unescape_quotes (strip ''""""'')) = []\<close> by code_simp
  have bac: \<open>unescape_quotes (strip (unwrap_quotes '' "x" '')) = ''"x"''\<close> by code_simp
  have bca: \<open>strip (unescape_quotes (unwrap_quotes '' "x" '')) = ''"x"''\<close> by code_simp
  have cab: \<open>unwrap_quotes (strip (unescape_quotes ''""""'')) = []\<close> by code_simp
  have cba: \<open>strip (unwrap_quotes (unescape_quotes ''""""'')) = []\<close> by code_simp
  have 1: "\<exists>u. unwrap_quotes (unescape_quotes (strip u)) \<noteq> normalize_value u"
  proof
    show \<open>unwrap_quotes (unescape_quotes (strip ''""""'')) \<noteq> normalize_value ''""""''\<close>
      unfolding n1 acb by simp
  qed
  have 2: "\<exists>u. unescape_quotes (strip (unwrap_quotes u)) \<noteq> normalize_value u"
  proof
    show \<open>unescape_quotes (strip (unwrap_quotes '' "x" '')) \<noteq> normalize_value '' "x" ''\<close>
      unfolding n2 bac by simp
  qed
  have 3: "\<exists>u. strip (unescape_quotes (unwrap_quotes u)) \<noteq> normalize_value u"
  proof
    show \<open>strip (unescape_quotes (unwrap_quotes '' "x" '')) \<noteq> normalize_value '' "x" ''\<close>
      unfolding n2 bca by simp
  qed
  have 4: "\<exists>u. unwrap_quotes (strip (unescape_quotes u)) \<noteq> normalize_value u"
  proof
    show \<open>unwrap_quotes (strip (unescape_quotes ''""""'')) \<noteq> normalize_value ''""""''\<close>
      unfolding n1 cab by simp
  qed
  have 5: "\<exists>u. strip (unwrap_quotes (unescape_quotes u)) \<noteq> normalize_value u"
  proof
    show \<open>strip (unwrap_quotes (unescape_quotes ''""""'')) \<noteq> normalize_value ''""""''\<close>
      unfolding n1 cba by simp
  qed
  from normalize_value_steps [of v] 1 2 3 4 5 show ?thesis by blast
qed

text \<open>
  Claim C7. The line \<^verbatim>\<open>"value with ""quotes"" and, comma"\<close> parses to exactly one field,
  \<^verbatim>\<open>value with "quotes" and, comma\<close>: the comma inside the quotes does not separate, and
  the doubled quotes are unescaped.
\<close>

theorem parse_line_quoted_field:
  \<open>parse_line ''"value with ""quotes"" and, comma"'' = [''value with "quotes" and, comma'']\<close>
  by code_simp

text \<open>
  Claim C8. A string that has no whitespace at either end, does not both start and end
  with a double quote, and has no two consecutive double quotes, is left unchanged by
  \<open>normalize_value\<close>.
\<close>

theorem normalize_value_normalized:
  assumes "v = [] \<or> (\<not> isspace (hd v) \<and> \<not> isspace (last v))"
    and "\<not> (v \<noteq> [] \<and> hd v = quote \<and> last v = quote)"
    and "\<not> (\<exists>a b. v = a @ [quote, quote] @ b)"
  shows "normalize_value v = v"
proof -
  have "strip v = v"
    using assms(1) by (simp add: strip_trimmed trimmed_def)
  moreover have "unwrap_quotes v = v"
    using assms(2) by (auto simp: unwrap_quotes_def)
  moreover have "replace v [quote, quote] [quote] = v"
    using assms(3) by (simp add: replace_absent contains_iff)
  ultimately show ?thesis
    by (simp add: normalize_value_steps flip: replace_quotes)
qed

theorem normalize_value_normalized_witness:
  \<open>(''say "hi" to all'' = [] \<or>
      (\<not> isspace (hd ''say "hi" to all'') \<and> \<not> isspace (last ''say "hi" to all'')))
   \<and> \<not> (''say "hi" to all'' \<noteq> [] \<and> hd ''say "hi" to all'' = quote
          \<and> last ''say "hi" to all'' = quote)
   \<and> \<not> (\<exists>a b. ''say "hi" to all'' = a @ [quote, quote] @ b)
   \<and> normalize_value ''say "hi" to all'' = ''say "hi" to all''\<close>
proof -
  have h1: \<open>''say "hi" to all'' = [] \<or>
      (\<not> isspace (hd ''say "hi" to all'') \<and> \<not> isspace (last ''say "hi" to all''))\<close>
    by (simp add: isspace_def)
  have h2: \<open>\<not> (''say "hi" to all'' \<noteq> [] \<and> hd ''say "hi" to all'' = quote
          \<and> last ''say "hi" to all'' = quote)\<close>
    by (simp add: quote_def)
  have \<open>\<not> contains ''say "hi" to all'' [quote, quote]\<close>
    by code_simp
  then have h3: \<open>\<not> (\<exists>a b. ''say "hi" to all'' = a @ [quote, quote] @ b)\<close>
    using contains_iff [of \<open>''say "hi" to all''\<close> "[quote, quote]"] by blast
  from h1 h2 h3 normalize_value_normalized [OF h1 h2 h3] show ?thesis
    by blast
qed

text \<open>
  Claim C9. \<open>normalize_value\<close> of the string that is one double quote is the empty string,
  and so is \<open>normalize_value\<close> of every string that strips to one double quote.
\<close>

theorem normalize_value_single_quote:
  "normalize_value [quote] = [] \<and> (strip v = [quote] \<longrightarrow> normalize_value v = [])"
proof -
  have "normalize_value u = []" if "strip u = [quote]" for u
    using that by (simp add: normalize_value_steps unwrap_quotes_def)
  moreover have "strip [quote] = [quote]" by code_simp
  ultimately show ?thesis by blast
qed

theorem normalize_value_single_quote_witness:
  \<open>strip ''  "  '' = [quote] \<and> normalize_value ''  "  '' = []\<close>
proof -
  have h: \<open>strip ''  "  '' = [quote]\<close>
    by code_simp
  from h normalize_value_single_quote [of \<open>''  "  ''\<close>] show ?thesis
    by blast
qed

section \<open>Claims about the records\<close>

text \<open>
  Claim C5. For all headers \<open>H\<close> and every parsed data line \<open>L\<close>, the record written for
  \<open>L\<close> is the dictionary of the pairs \<open>(H ! i, L ! i)\<close> for \<open>i\<close> below the smaller of the two
  lengths. Its keys are the header names at these indices, so the names after a short line's
  end contribute nothing, and the values after the last header are dropped without an
  error: the text written does not depend on them. The header \<^verbatim>\<open>name,age\<close> with the data
  line \<^verbatim>\<open>Alice\<close> gives \<^verbatim>\<open>{"name": "Alice"}\<close>.
\<close>

theorem record_pairs_headers_with_values:
  \<open>write_json_data H L =
     on_dest (write_str
       (json_dumps (dict (map (\<lambda>i. (H ! i, L ! i)) [0..<min (length H) (length L)])) @ '', ''))
   \<and> fst ` set (dict (zip H L)) = {H ! i | i. i < min (length H) (length L)}
   \<and> write_json_data H L = write_json_data (take (length L) H) L
   \<and> write_json_data H L = write_json_data H (take (length H) L)
   \<and> (distinct H \<longrightarrow> dict (zip H L) = map (\<lambda>i. (H ! i, L ! i)) [0..<min (length H) (length L)])
   \<and> (\<not> dest_closed (dest_file c) \<longrightarrow> (\<exists>n. fst (write_json_data H L c) = Inr n))
   \<and> json_dumps (dict (zip (parse_line ''name,age'') (parse_line ''Alice'')))
       = ''{"name": "Alice"}''\<close>
proof -
  have p1: "write_json_data H L =
     on_dest (write_str
       (json_dumps (dict (map (\<lambda>i. (H ! i, L ! i)) [0..<min (length H) (length L)])) @ '', ''))"
    by (simp add: write_json_data_def Let_def flip: zip_nth_pairs)
  have "set (take (length L) H) = {H ! i | i. i < min (length H) (length L)}"
  proof -
    have "set (take (length L) H)
            = {take (length L) H ! i | i. i < length (take (length L) H)}"
      by (rule set_conv_nth)
    also have "\<dots> = {H ! i | i. i < min (length H) (length L)}"
    proof (rule Collect_cong)
      fix x
      show "(\<exists>i. x = take (length L) H ! i \<and> i < length (take (length L) H))
              = (\<exists>i. x = H ! i \<and> i < min (length H) (length L))"
      proof
        assume "\<exists>i. x = take (length L) H ! i \<and> i < length (take (length L) H)"
        then obtain i where "x = take (length L) H ! i" "i < length (take (length L) H)"
          by blast
        then have "x = H ! i \<and> i < min (length H) (length L)" by simp
        then show "\<exists>i. x = H ! i \<and> i < min (length H) (length L)" ..
      next
        assume "\<exists>i. x = H ! i \<and> i < min (length H) (length L)"
        then obtain i where "x = H ! i" "i < min (length H) (length L)"
          by blast
        then have "x = take (length L) H ! i \<and> i < length (take (length L) H)" by simp
        then show "\<exists>i. x = take (length L) H ! i \<and> i < length (take (length L) H)" ..
      qed
    qed
    finally show ?thesis .
  qed
  then have p2: "fst ` set (dict (zip H L)) = {H ! i | i. i < min (length H) (length L)}"
    by (simp add: keys_dict keys_zip)
  have p3: "write_json_data H L = write_json_data (take (length L) H) L"
    by (simp add: write_json_data_def zip_take_left)
  have p4: "write_json_data H L = write_json_data H (take (length H) L)"
    by (simp add: write_json_data_def zip_take_right)
  have p5: "dict (zip H L) = map (\<lambda>i. (H ! i, L ! i)) [0..<min (length H) (length L)]"
    if "distinct H"
  proof -
    have "map fst (zip H L) = take (length L) H"
      by (rule nth_equalityI) simp_all
    then have "distinct (map fst (zip H L))"
      using that by (simp add: distinct_take)
    then show ?thesis
      using dict_distinct [of "zip H L"] zip_nth_pairs [of H L] by simp
  qed
  have p6: "\<exists>n. fst (write_json_data H L c) = Inr n" if "\<not> dest_closed (dest_file c)"
    using that by (simp add: write_json_data_def Let_def on_dest_def write_str_def)
  have p7: \<open>json_dumps (dict (zip (parse_line ''name,age'') (parse_line ''Alice'')))
       = ''{"name": "Alice"}''\<close>
    by code_simp
  from p1 p2 p3 p4 p5 p6 p7 show ?thesis by blast
qed

theorem record_pairs_headers_with_values_witness:
  \<open>distinct [''name'', ''age'']
   \<and> dict (zip [''name'', ''age''] [''Alice'']) = [(''name'', ''Alice'')]
   \<and> \<not> dest_closed (dest_file (opened []))
   \<and> (\<exists>n. fst (write_json_data [''name'', ''age''] [''Alice''] (opened [])) = Inr n)\<close>
proof -
  have h1: "distinct [''name'', ''age'']" by simp
  have h2: "\<not> dest_closed (dest_file (opened []))" by (simp add: opened_def)
  note t = record_pairs_headers_with_values [of "[''name'', ''age'']" "[''Alice'']" "opened []"]
  from t h1 have "dict (zip [''name'', ''age''] [''Alice''])
      = map (\<lambda>i. ([''name'', ''age''] ! i, [''Alice''] ! i))
          [0..<min (length [''name'', ''age'']) (length [''Alice''])]"
    by blast
  then have a: "dict (zip [''name'', ''age''] [''Alice'']) = [(''name'', ''Alice'')]"
    by simp
  from t h2 have b: "\<exists>n. fst (write_json_data [''name'', ''age''] [''Alice''] (opened [])) = Inr n"
    by blast
  from h1 h2 a b show ?thesis by blast
qed

text \<open>
  Claim C10. \<open>write_json_data\<close> writes one JSON object whose pairs are those of the record
  \<open>dict (zip H L)\<close>, followed by a comma and a space. When a header name stands at several
  indices, the record maps it to the value at the last of these indices that the data line
  reaches, and this pair is in the object; a name is a key once, so the object has as many
  pairs as there are different names among the headers the line reaches, and fewer than the
  smaller length when a name is repeated there. The header \<^verbatim>\<open>id,id\<close> with the data line
  \<^verbatim>\<open>1,2\<close> puts \<^verbatim>\<open>{"id": "2"}, \<close> in the sink.
\<close>

theorem duplicate_header_keeps_last_value:
  \<open>write_json_data H L =
     on_dest (write_str
       (''{'' @ join '', ''
                  (map (\<lambda>(k, v). json_string k @ '': '' @ json_string v) (dict (zip H L)))
        @ ''}, ''))
   \<and> (\<not> dest_closed (dest_file c) \<and> position (dest_file c) = length (content (dest_file c))
        \<longrightarrow>
        fst (write_json_data H L c) = Inr (length (json_dumps (dict (zip H L)) @ '', ''))
        \<and> content (dest_file (snd (write_json_data H L c)))
            = content (dest_file c) @ json_dumps (dict (zip H L)) @ '', '')
   \<and> (i < min (length H) (length L)
        \<and> (\<forall>j. i < j \<and> j < min (length H) (length L) \<longrightarrow> H ! j \<noteq> H ! i)
        \<longrightarrow> map_of (dict (zip H L)) (H ! i) = Some (L ! i)
            \<and> (H ! i, L ! i) \<in> set (dict (zip H L)))
   \<and> distinct (map fst (dict (zip H L)))
   \<and> length (dict (zip H L)) = card (set (take (length L) H))
   \<and> length (dict (zip H L)) \<le> min (length H) (length L)
   \<and> (\<not> distinct (take (length L) H) \<longrightarrow> length (dict (zip H L)) < min (length H) (length L))
   \<and> content (dest_file (snd (write_json_data (parse_line ''id,id'') (parse_line ''1,2'')
         (opened [])))) = ''{"id": "2"}, ''\<close>
proof -
  have p0: \<open>write_json_data H L =
     on_dest (write_str
       (''{'' @ join '', ''
                  (map (\<lambda>(k, v). json_string k @ '': '' @ json_string v) (dict (zip H L)))
        @ ''}, ''))\<close>
    by (simp add: write_json_data_def Let_def json_dumps_def)
  have pw: "fst (write_json_data H L c) = Inr (length (json_dumps (dict (zip H L)) @ '', ''))
        \<and> content (dest_file (snd (write_json_data H L c)))
            = content (dest_file c) @ json_dumps (dict (zip H L)) @ '', ''"
    if "\<not> dest_closed (dest_file c) \<and> position (dest_file c) = length (content (dest_file c))"
    using that by (simp add: write_json_data_def Let_def on_dest_def write_at_end)
  have p1: "map_of (dict (zip H L)) (H ! i) = Some (L ! i)
            \<and> (H ! i, L ! i) \<in> set (dict (zip H L))"
    if i: "i < min (length H) (length L)"
      and last: "\<forall>j. i < j \<and> j < min (length H) (length L) \<longrightarrow> H ! j \<noteq> H ! i"
  proof -
    have len: "length (zip H L) = min (length H) (length L)" by simp
    have "\<forall>j. i < j \<and> j < length (zip H L) \<longrightarrow> fst (zip H L ! j) \<noteq> fst (zip H L ! i)"
      using i last by simp
    then have "map_of (rev (zip H L)) (fst (zip H L ! i)) = Some (snd (zip H L ! i))"
      using i len map_of_rev_last_occurrence [of i "zip H L"] by simp
    then have m: "map_of (dict (zip H L)) (H ! i) = Some (L ! i)"
      using i by (simp add: map_of_dict)
    then have "(H ! i, L ! i) \<in> set (dict (zip H L))"
      by (rule map_of_SomeD)
    with m show ?thesis by blast
  qed
  have p2: "distinct (map fst (dict (zip H L)))"
    by (rule distinct_dict)
  have p3: "length (dict (zip H L)) = card (set (take (length L) H))"
    by (simp add: length_dict keys_zip)
  have lt: "length (take (length L) H) = min (length H) (length L)"
    by simp
  have p4: "length (dict (zip H L)) \<le> min (length H) (length L)"
    unfolding p3 using card_length [of "take (length L) H"] lt by simp
  have p5: "length (dict (zip H L)) < min (length H) (length L)"
    if "\<not> distinct (take (length L) H)"
  proof -
    have "card (set (take (length L) H)) \<noteq> length (take (length L) H)"
      using that card_distinct by blast
    then show ?thesis
      using p4 lt unfolding p3 by linarith
  qed
  have p6: \<open>content (dest_file (snd (write_json_data (parse_line ''id,id'') (parse_line ''1,2'')
         (opened [])))) = ''{"id": "2"}, ''\<close>
    by code_simp
  from p0 pw p1 p2 p3 p4 p5 p6 show ?thesis by blast
qed

theorem duplicate_header_keeps_last_value_witness:
  \<open>\<not> dest_closed (dest_file (opened []))
   \<and> position (dest_file (opened [])) = length (content (dest_file (opened [])))
   \<and> content (dest_file (snd (write_json_data [''id'', ''id'', ''n''] [''1'', ''2''] (opened []))))
       = ''{"id": "2"}, ''
   \<and> (1::nat) < min (length [''id'', ''id'', ''n'']) (length [''1'', ''2''])
   \<and> map_of (dict (zip [''id'', ''id'', ''n''] [''1'', ''2''])) ([''id'', ''id'', ''n''] ! 1)
       = Some ([''1'', ''2''] ! 1)
   \<and> \<not> distinct (take (length [''1'', ''2'']) [''id'', ''id'', ''n''])
   \<and> length (dict (zip [''id'', ''id'', ''n''] [''1'', ''2'']))
       < min (length [''id'', ''id'', ''n'']) (length [''1'', ''2''])\<close>
proof -
  let ?H = "[''id'', ''id'', ''n'']"
  let ?L = "[''1'', ''2'']"
  have h0: "\<not> dest_closed (dest_file (opened []))
      \<and> position (dest_file (opened [])) = length (content (dest_file (opened [])))"
    by (simp add: opened_def)
  have h1: "(1::nat) < min (length ?H) (length ?L)" by simp
  have h2: "\<forall>j. 1 < j \<and> j < min (length ?H) (length ?L) \<longrightarrow> ?H ! j \<noteq> ?H ! 1"
    by simp
  have h3: "\<not> distinct (take (length ?L) ?H)" by simp
  have e: \<open>json_dumps (dict (zip ?H ?L)) @ '', '' = ''{"id": "2"}, ''\<close>
    by code_simp
  have z: "content (dest_file (opened [])) = []"
    by (simp add: opened_def)
  note t = duplicate_header_keeps_last_value [of ?H ?L "opened []" 1]
  from t h0 have "content (dest_file (snd (write_json_data ?H ?L (opened []))))
      = content (dest_file (opened [])) @ json_dumps (dict (zip ?H ?L)) @ '', ''"
    by blast
  then have w: \<open>content (dest_file (snd (write_json_data ?H ?L (opened []))))
      = ''{"id": "2"}, ''\<close>
    unfolding z e by simp
  from t h1 h2 have a: "map_of (dict (zip ?H ?L)) (?H ! 1) = Some (?L ! 1)"
    by blast
  from t h3 have b: "length (dict (zip ?H ?L)) < min (length ?H) (length ?L)"
    by blast
  from h0 h1 h3 w a b show ?thesis by blast
qed

section \<open>Claims about the converter\<close>

text \<open>
  Claim C3, on the input where the code departs from it. The claim: a header line followed
  by \<open>N\<close> data lines is converted to a document \<^verbatim>\<open>{"data": [...]}\<close> around exactly \<open>N\<close> objects.
  For a source of the header line alone (\<open>N = 0\<close>) the conversion returns, and what it has
  written is \<^verbatim>\<open>{"data":]}\<close>, not the document around no object, \<^verbatim>\<open>{"data": []}\<close>. (For
  one data line or more the document is the one claimed: lemma
  \<open>content_convert_data_nonempty\<close>.)
\<close>

theorem header_only_document:
  \<open>fst (csv_to_json (opened [Inr (''name,age'' @ [newline])])) = Inr ()
   \<and> content (dest_file (snd (csv_to_json (opened [Inr (''name,age'' @ [newline])]))))
       = ''{"data":]}''
   \<and> document [] = ''{"data": []}''\<close>
  by code_simp

text \<open>
  Claim C4. The footer step moves two characters back from the end of the sink and writes
  \<^verbatim>\<open>]}\<close> there: on an open sink of two characters or more, the content becomes the old
  content without its last two characters, followed by \<^verbatim>\<open>]}\<close>. It runs when the source is
  used up, on what the header step and the records have written: the opening fragment and,
  after each record, a comma and a space. With one data line or more the two characters
  removed are the last comma and space; with none they are the last two characters of the
  opening fragment, and the sink of a source with only the header holds \<^verbatim>\<open>{"data":]}\<close>,
  which is not the opening fragment, a body and the closing fragment.
\<close>

theorem footer_overwrites_last_two:
  \<open>(\<not> dest_closed (dest_file c) \<and> 2 \<le> length (content (dest_file c)) \<longrightarrow>
      write_json_file_footer c =
        (Inr 2,
         c\<lparr>dest_file := (dest_file c)
              \<lparr>content := take (length (content (dest_file c)) - 2) (content (dest_file c))
                           @ '']}'',
               position := length (content (dest_file c))\<rparr>\<rparr>))
   \<and> ([] \<notin> set ls \<longrightarrow>
        fst (convert_records (opened (map Inr (hl # ls)))) = Inr ()
        \<and> pending (source_file (snd (convert_records (opened (map Inr (hl # ls)))))) = []
        \<and> content (dest_file (snd (convert_records (opened (map Inr (hl # ls))))))
            = ''{"data": ['' @ concat (map (\<lambda>l. json_object (parse_line hl) l @ '', '') ls)
        \<and> fst (convert_data (opened (map Inr (hl # ls)))) = Inr ()
        \<and> snd (convert_data (opened (map Inr (hl # ls))))
            = snd (write_json_file_footer (snd (convert_records (opened (map Inr (hl # ls))))))
        \<and> content (dest_file (snd (convert_data (opened (map Inr (hl # ls))))))
            = take (length (content (dest_file
                      (snd (convert_records (opened (map Inr (hl # ls))))))) - 2)
                (content (dest_file (snd (convert_records (opened (map Inr (hl # ls)))))))
              @ '']}'')
   \<and> ([] \<notin> set ls \<and> ls \<noteq> [] \<longrightarrow>
        content (dest_file (snd (convert_records (opened (map Inr (hl # ls))))))
          = ''{"data": ['' @ join '', '' (map (json_object (parse_line hl)) ls) @ '', ''
        \<and> content (dest_file (snd (convert_data (opened (map Inr (hl # ls))))))
          = ''{"data": ['' @ join '', '' (map (json_object (parse_line hl)) ls) @ '']}'')
   \<and> content (dest_file (snd (convert_records (opened [Inr hl])))) = ''{"data": [''
   \<and> content (dest_file (snd (convert_data (opened [Inr hl])))) = ''{"data":]}''
   \<and> \<not> (\<exists>body. ''{"data":]}'' = ''{"data": ['' @ body @ '']}'')\<close>
proof -
  have p1: "\<not> dest_closed (dest_file c) \<and> 2 \<le> length (content (dest_file c)) \<longrightarrow>
      write_json_file_footer c =
        (Inr 2,
         c\<lparr>dest_file := (dest_file c)
              \<lparr>content := take (length (content (dest_file c)) - 2) (content (dest_file c))
                           @ '']}'',
               position := length (content (dest_file c))\<rparr>\<rparr>)"
    using write_json_file_footer_open [of c] by (simp add: json_file_footer_def)
  have hd: \<open>json_file_header = ''{"data": [''\<close>
    by (simp add: json_file_header_def)
  have ft: "json_file_footer = '']}''"
    by (simp add: json_file_footer_def)
  have mp: "map Inr (hl # ls) = Inr hl # map Inr ls" by simp
  have p2: \<open>fst (convert_records (opened (map Inr (hl # ls)))) = Inr ()
        \<and> pending (source_file (snd (convert_records (opened (map Inr (hl # ls)))))) = []
        \<and> content (dest_file (snd (convert_records (opened (map Inr (hl # ls))))))
            = ''{"data": ['' @ concat (map (\<lambda>l. json_object (parse_line hl) l @ '', '') ls)
        \<and> fst (convert_data (opened (map Inr (hl # ls)))) = Inr ()
        \<and> snd (convert_data (opened (map Inr (hl # ls))))
            = snd (write_json_file_footer (snd (convert_records (opened (map Inr (hl # ls))))))
        \<and> content (dest_file (snd (convert_data (opened (map Inr (hl # ls))))))
            = take (length (content (dest_file
                      (snd (convert_records (opened (map Inr (hl # ls))))))) - 2)
                (content (dest_file (snd (convert_records (opened (map Inr (hl # ls)))))))
              @ '']}''\<close> if ne: "[] \<notin> set ls"
  proof -
    define body where
      "body = json_file_header @ concat (map (\<lambda>l. json_object (parse_line hl) l @ '', '') ls)"
    have two: "2 \<le> length body"
      by (simp add: body_def length_json_file_header)
    have rec: "convert_records (opened (Inr hl # map Inr ls)) =
           (Inr (),
            \<lparr>source_file = \<lparr>pending = [], src_closed = False\<rparr>,
             dest_file = \<lparr>content = body, position = length body, dest_closed = False\<rparr>\<rparr>)"
      unfolding body_def by (rule convert_records_opened [OF ne])
    have dat: "convert_data (opened (Inr hl # map Inr ls)) =
           (Inr (),
            \<lparr>source_file = \<lparr>pending = [], src_closed = False\<rparr>,
             dest_file = \<lparr>content = take (length body - 2) body @ json_file_footer,
                          position = length body, dest_closed = False\<rparr>\<rparr>)"
      unfolding body_def by (rule convert_data_opened [OF ne])
    have foot: "snd (write_json_file_footer
            \<lparr>source_file = \<lparr>pending = [], src_closed = False\<rparr>,
             dest_file = \<lparr>content = body, position = length body, dest_closed = False\<rparr>\<rparr>)
          = \<lparr>source_file = \<lparr>pending = [], src_closed = False\<rparr>,
             dest_file = \<lparr>content = take (length body - 2) body @ json_file_footer,
                          position = length body, dest_closed = False\<rparr>\<rparr>"
      using two by (simp add: write_json_file_footer_open)
    have bd: \<open>body = ''{"data": ['' @ concat (map (\<lambda>l. json_object (parse_line hl) l @ '', '') ls)\<close>
      by (simp add: body_def hd)
    have bd': \<open>CHR ''{'' # CHR 0x22 # CHR ''d'' # CHR ''a'' # CHR ''t'' # CHR ''a'' # CHR 0x22
        # CHR '':'' # CHR '' '' # CHR ''['' # concat (map (\<lambda>l. json_object (parse_line hl) l @ '', '') ls)
        = body\<close>
      using bd by simp
    show ?thesis
      by (simp add: rec dat foot ft bd')
  qed
  have p3: \<open>content (dest_file (snd (convert_records (opened (map Inr (hl # ls))))))
          = ''{"data": ['' @ join '', '' (map (json_object (parse_line hl)) ls) @ '', ''
        \<and> content (dest_file (snd (convert_data (opened (map Inr (hl # ls))))))
          = ''{"data": ['' @ join '', '' (map (json_object (parse_line hl)) ls) @ '']}''\<close>
    if ne: "[] \<notin> set ls" and nn: "ls \<noteq> []"
  proof -
    have "content (dest_file (snd (convert_records (opened (map Inr (hl # ls))))))
            = json_file_header @ concat (map (\<lambda>l. json_object (parse_line hl) l @ '', '') ls)"
      unfolding mp convert_records_opened [OF ne] by simp
    also have "\<dots> = json_file_header @ join '', '' (map (json_object (parse_line hl)) ls) @ '', ''"
      using nn concat_join [of ls "json_object (parse_line hl)" "'', ''"] by simp
    finally have a: \<open>content (dest_file (snd (convert_records (opened (map Inr (hl # ls))))))
          = ''{"data": ['' @ join '', '' (map (json_object (parse_line hl)) ls) @ '', ''\<close>
      unfolding hd .
    have b: \<open>content (dest_file (snd (convert_data (opened (map Inr (hl # ls))))))
          = ''{"data": ['' @ join '', '' (map (json_object (parse_line hl)) ls) @ '']}''\<close>
      unfolding mp content_convert_data_nonempty [OF ne nn] document_def hd ft ..
    from a b show ?thesis by blast
  qed
  have p4: \<open>content (dest_file (snd (convert_records (opened [Inr hl])))) = ''{"data": [''\<close>
    using convert_records_opened [of "[]" hl] by (simp add: hd)
  have p5: \<open>content (dest_file (snd (convert_data (opened [Inr hl])))) = ''{"data":]}''\<close>
    by (rule content_convert_data_header_only)
  have p6: \<open>\<not> (\<exists>body. ''{"data":]}'' = ''{"data": ['' @ body @ '']}'')\<close>
    by simp
  from p1 p2 p3 p4 p5 p6 show ?thesis by blast
qed

theorem footer_overwrites_last_two_witness:
  \<open>\<not> dest_closed (dest_file
        \<lparr>source_file = \<lparr>pending = [], src_closed = False\<rparr>,
         dest_file = \<lparr>content = ''{}, '', position = 4, dest_closed = False\<rparr>\<rparr>)
   \<and> 2 \<le> length (content (dest_file
        \<lparr>source_file = \<lparr>pending = [], src_closed = False\<rparr>,
         dest_file = \<lparr>content = ''{}, '', position = 4, dest_closed = False\<rparr>\<rparr>))
   \<and> write_json_file_footer
        \<lparr>source_file = \<lparr>pending = [], src_closed = False\<rparr>,
         dest_file = \<lparr>content = ''{}, '', position = 4, dest_closed = False\<rparr>\<rparr>
       = (Inr 2,
          \<lparr>source_file = \<lparr>pending = [], src_closed = False\<rparr>,
           dest_file = \<lparr>content = ''{}]}'', position = 4, dest_closed = False\<rparr>\<rparr>)
   \<and> [] \<notin> set [''Alice,30'' @ [newline]]
   \<and> [''Alice,30'' @ [newline]] \<noteq> []
   \<and> content (dest_file (snd (convert_records
         (opened (map Inr ((''name,age'' @ [newline]) # [''Alice,30'' @ [newline]]))))))
       = ''{"data": [{"name": "Alice", "age": "30"}, ''
   \<and> content (dest_file (snd (convert_data
         (opened (map Inr ((''name,age'' @ [newline]) # [''Alice,30'' @ [newline]]))))))
       = ''{"data": [{"name": "Alice", "age": "30"}]}''\<close>
proof -
  let ?c = "\<lparr>source_file = \<lparr>pending = [], src_closed = False\<rparr>,
            dest_file = \<lparr>content = ''{}, '', position = 4, dest_closed = False\<rparr>\<rparr>"
  let ?ls = "[''Alice,30'' @ [newline]]"
  let ?hl = "''name,age'' @ [newline]"
  have h1: "\<not> dest_closed (dest_file ?c) \<and> 2 \<le> length (content (dest_file ?c))"
    by simp
  have h2: "[] \<notin> set ?ls \<and> ?ls \<noteq> []"
    by simp
  have e: \<open>join '', '' (map (json_object (parse_line ?hl)) ?ls)
             = ''{"name": "Alice", "age": "30"}''\<close>
    by code_simp
  note t = footer_overwrites_last_two [of ?c ?ls ?hl]
  from t h1 have a: "write_json_file_footer ?c =
        (Inr 2,
         ?c\<lparr>dest_file := (dest_file ?c)
              \<lparr>content := take (length (content (dest_file ?c)) - 2) (content (dest_file ?c))
                           @ '']}'',
               position := length (content (dest_file ?c))\<rparr>\<rparr>)"
    by blast
  from t h2 have b: \<open>content (dest_file (snd (convert_records (opened (map Inr (?hl # ?ls))))))
          = ''{"data": ['' @ join '', '' (map (json_object (parse_line ?hl)) ?ls) @ '', ''
        \<and> content (dest_file (snd (convert_data (opened (map Inr (?hl # ?ls))))))
          = ''{"data": ['' @ join '', '' (map (json_object (parse_line ?hl)) ?ls) @ '']}''\<close>
    by blast
  have a': \<open>write_json_file_footer ?c
       = (Inr 2,
          \<lparr>source_file = \<lparr>pending = [], src_closed = False\<rparr>,
           dest_file = \<lparr>content = ''{}]}'', position = 4, dest_closed = False\<rparr>\<rparr>)\<close>
    unfolding a by simp
  from b have b': \<open>content (dest_file (snd (convert_records (opened (map Inr (?hl # ?ls))))))
          = ''{"data": [{"name": "Alice", "age": "30"}, ''
        \<and> content (dest_file (snd (convert_data (opened (map Inr (?hl # ?ls))))))
          = ''{"data": [{"name": "Alice", "age": "30"}]}''\<close>
    unfolding e by simp
  from h1 h2 a' b' show ?thesis by blast
qed

text \<open>
  Claim C6, as it holds of the code. The claim says that \<open>convert\<close> closes both files on every
  exit path, also when the loop over the lines raises. The counterexample is a source whose
  third read raises: \<open>convert\<close> raises the same exception and both files are still open.
  What holds: \<open>convert\<close> closes both files when the conversion step returns; when the
  step raises, \<open>convert\<close> raises the same exception in the state the step left, without
  reaching \<open>close_files\<close>, and the step of the CSV converter leaves each file open or closed
  as it was. The step of the base class always raises.
\<close>

theorem convert_leaves_files_open_counterexample:
  \<open>fst (csv_to_json (opened [Inr (''name,age'' @ [newline]), Inr (''Alice,30'' @ [newline]),
                              Inl UnicodeDecodeError]))
     = Inl UnicodeDecodeError
   \<and> \<not> src_closed (source_file (snd (csv_to_json
          (opened [Inr (''name,age'' @ [newline]), Inr (''Alice,30'' @ [newline]),
                   Inl UnicodeDecodeError]))))
   \<and> \<not> dest_closed (dest_file (snd (csv_to_json
          (opened [Inr (''name,age'' @ [newline]), Inr (''Alice,30'' @ [newline]),
                   Inl UnicodeDecodeError]))))\<close>
  by code_simp

theorem convert_closes_after_return:
  "(fst (conv_data c) = Inr () \<longrightarrow>
      fst (convert conv_data c) = Inr ()
      \<and> src_closed (source_file (snd (convert conv_data c)))
      \<and> dest_closed (dest_file (snd (convert conv_data c))))
   \<and> (fst (conv_data c) = Inl e \<longrightarrow> convert conv_data c = conv_data c)
   \<and> convert base_convert_data c = (Inl NotImplementedError, c)
   \<and> (fst (convert_data c) = Inl e \<longrightarrow>
        fst (csv_to_json c) = Inl e
        \<and> src_closed (source_file (snd (csv_to_json c))) = src_closed (source_file c)
        \<and> dest_closed (dest_file (snd (csv_to_json c))) = dest_closed (dest_file c))"
proof -
  obtain r c1 where cd: "conv_data c = (r, c1)" by (cases "conv_data c")
  have a: "fst (conv_data c) = Inr () \<longrightarrow>
      fst (convert conv_data c) = Inr ()
      \<and> src_closed (source_file (snd (convert conv_data c)))
      \<and> dest_closed (dest_file (snd (convert conv_data c)))"
    using cd by (simp add: convert_def and_then_def close_files_def)
  have b: "fst (conv_data c') = Inl e \<longrightarrow> convert conv_data c' = conv_data c'"
    for conv_data :: "converter \<Rightarrow> (error + unit) \<times> converter" and c'
    by (cases "conv_data c'") (simp add: convert_def and_then_def)
  have fl: "src_closed (source_file (snd (convert_data c))) = src_closed (source_file c)
              \<and> dest_closed (dest_file (snd (convert_data c))) = dest_closed (dest_file c)"
    using keeps_flags_convert_data unfolding keeps_flags_def by blast
  have d: "fst (convert_data c) = Inl e \<longrightarrow>
        fst (csv_to_json c) = Inl e
        \<and> src_closed (source_file (snd (csv_to_json c))) = src_closed (source_file c)
        \<and> dest_closed (dest_file (snd (csv_to_json c))) = dest_closed (dest_file c)"
    using b [of convert_data c] fl by (simp add: csv_to_json_def)
  have n: "convert base_convert_data c = (Inl NotImplementedError, c)"
    by (simp add: convert_def and_then_def base_convert_data_def)
  from a b [of conv_data c] n d show ?thesis by blast
qed

theorem convert_closes_after_return_witness:
  \<open>fst (convert_data (opened [Inr (''name,age'' @ [newline]), Inr (''Alice,30'' @ [newline])]))
     = Inr ()
   \<and> fst (convert convert_data
          (opened [Inr (''name,age'' @ [newline]), Inr (''Alice,30'' @ [newline])])) = Inr ()
   \<and> src_closed (source_file (snd (convert convert_data
          (opened [Inr (''name,age'' @ [newline]), Inr (''Alice,30'' @ [newline])]))))
   \<and> dest_closed (dest_file (snd (convert convert_data
          (opened [Inr (''name,age'' @ [newline]), Inr (''Alice,30'' @ [newline])]))))
   \<and> fst (convert_data (opened [Inr (''name,age'' @ [newline]), Inl OSError])) = Inl OSError
   \<and> fst (csv_to_json (opened [Inr (''name,age'' @ [newline]), Inl OSError])) = Inl OSError
   \<and> src_closed (source_file (snd (csv_to_json
          (opened [Inr (''name,age'' @ [newline]), Inl OSError]))))
       = src_closed (source_file (opened [Inr (''name,age'' @ [newline]), Inl OSError]))
   \<and> dest_closed (dest_file (snd (csv_to_json
          (opened [Inr (''name,age'' @ [newline]), Inl OSError]))))
       = dest_closed (dest_file (opened [Inr (''name,age'' @ [newline]), Inl OSError]))\<close>
proof -
  have h1: \<open>fst (convert_data
      (opened [Inr (''name,age'' @ [newline]), Inr (''Alice,30'' @ [newline])])) = Inr ()\<close>
    by code_simp
  have h2: \<open>fst (convert_data (opened [Inr (''name,age'' @ [newline]), Inl OSError]))
      = Inl OSError\<close>
    by code_simp
  from h1 h2
    convert_closes_after_return [of convert_data
      \<open>opened [Inr (''name,age'' @ [newline]), Inr (''Alice,30'' @ [newline])]\<close> OSError]
    convert_closes_after_return [of convert_data
      \<open>opened [Inr (''name,age'' @ [newline]), Inl OSError]\<close> OSError]
  show ?thesis by blast
qed

end
